theory Spec2Isabelle
  imports Main "HOL-Library.Word" "HOL-Library.AList"
begin

section \<open>Characters and their classification\<close>

text \<open>
  The program never calls \<^verbatim>\<open>setlocale\<close>, so \<^verbatim>\<open>::ispunct\<close>, \<^verbatim>\<open>::tolower\<close> and the
  whitespace test of \<^verbatim>\<open>operator>>\<close> work in the "C" locale. A \<^verbatim>\<open>char\<close> is
  a byte; the bytes from 128 on are neither whitespace nor punctuation there and
  \<^verbatim>\<open>tolower\<close> leaves them alone.
\<close>

definition isspace :: "char \<Rightarrow> bool" where
  "isspace c = (let n = (of_char c :: nat) in n = 32 \<or> (9 \<le> n \<and> n \<le> 13))"

definition ispunct :: "char \<Rightarrow> bool" where
  "ispunct c = (let n = (of_char c :: nat) in
     (33 \<le> n \<and> n \<le> 47) \<or> (58 \<le> n \<and> n \<le> 64) \<or> (91 \<le> n \<and> n \<le> 96) \<or> (123 \<le> n \<and> n \<le> 126))"

definition isupper :: "char \<Rightarrow> bool" where
  "isupper c = (let n = (of_char c :: nat) in 65 \<le> n \<and> n \<le> 90)"

definition tolower :: "char \<Rightarrow> char" where
  "tolower c = (if isupper c then char_of ((of_char c :: nat) + 32) else c)"

definition LF :: char where
  "LF = CHR 0x0A"

definition CR :: char where
  "CR = CHR 0x0D"

section \<open>Input streams\<close>

text \<open>
  A \<^verbatim>\<open>std::istream\<close> is the bytes still to be read and the two state bits the
  program can observe (badbit is never set by the reads modelled here). The bytes are
  a finite list: the request asks the server to close the connection, so the response
  ends. \<^verbatim>\<open>good()\<close> is no bit set; the conversion to \<^verbatim>\<open>bool\<close> that the loops test
  is \<^verbatim>\<open>!fail()\<close>.
\<close>

record istream =
  buf :: string
  eofbit :: bool
  failbit :: bool

definition good :: "istream \<Rightarrow> bool" where
  "good s = (\<not> eofbit s \<and> \<not> failbit s)"

definition stringstream :: "string \<Rightarrow> istream" where
  "stringstream s = \<lparr>buf = s, eofbit = False, failbit = False\<rparr>"

text \<open>
  \<^verbatim>\<open>std::getline(is, str)\<close>: a stream that is not good only gets its failbit set
  and the string is left alone. Otherwise the string is erased and filled up to the
  next line feed, which is consumed and not stored; running into the end sets
  eofbit, and failbit as well when nothing at all was extracted.
\<close>

definition getline :: "istream \<Rightarrow> string \<Rightarrow> istream \<times> string" where
  "getline s str =
     (if \<not> good s then (s\<lparr>failbit := True\<rparr>, str)
      else if buf s = [] then (s\<lparr>eofbit := True, failbit := True\<rparr>, [])
      else (case dropWhile (\<lambda>c. c \<noteq> LF) (buf s) of
              [] \<Rightarrow> (s\<lparr>buf := [], eofbit := True\<rparr>, buf s)
            | _ # r \<Rightarrow> (s\<lparr>buf := r\<rparr>, takeWhile (\<lambda>c. c \<noteq> LF) (buf s))))"

text \<open>
  \<^verbatim>\<open>is >> str\<close> for a \<^verbatim>\<open>std::string\<close>: a stream that is not good only gets its
  failbit set. Otherwise leading whitespace is skipped; reaching the end while
  skipping sets eofbit and failbit and leaves the string alone. Otherwise the
  characters up to the next whitespace (left in the stream) or the end (eofbit)
  replace the string.
\<close>

definition extraction :: "istream \<Rightarrow> string \<Rightarrow> istream \<times> string" where
  "extraction s str =
     (if \<not> good s then (s\<lparr>failbit := True\<rparr>, str)
      else (let b = dropWhile isspace (buf s) in
        if b = [] then (s\<lparr>buf := [], eofbit := True, failbit := True\<rparr>, str)
        else (let r = dropWhile (\<lambda>c. \<not> isspace c) b in
          (s\<lparr>buf := r, eofbit := (r = [])\<rparr>, takeWhile (\<lambda>c. \<not> isspace c) b))))"

text \<open>
  A read that succeeds consumes at least one character: this is what makes the loops
  over a stream terminate.
\<close>

lemma extraction_shorter:
  "extraction s str = (s', str') \<Longrightarrow> \<not> failbit s' \<Longrightarrow> length (buf s') < length (buf s)"
proof -
  assume e: "extraction s str = (s', str')" and nf: "\<not> failbit s'"
  define b where "b = dropWhile isspace (buf s)"
  from e nf have g: "good s" and ne: "b \<noteq> []"
    and s': "buf s' = dropWhile (\<lambda>c. \<not> isspace c) b"
    by (auto simp: extraction_def Let_def b_def split: if_splits)
  from ne have "\<not> isspace (hd b)"
    unfolding b_def by (simp add: hd_dropWhile)
  with ne have "length (dropWhile (\<lambda>c. \<not> isspace c) b) < length b"
    by (cases b) (auto simp: le_imp_less_Suc length_dropWhile_le)
  moreover have "length b \<le> length (buf s)"
    unfolding b_def by (rule length_dropWhile_le)
  ultimately show ?thesis using s' by simp
qed

lemma getline_shorter:
  "getline s str = (s', str') \<Longrightarrow> \<not> failbit s' \<Longrightarrow> length (buf s') < length (buf s)"
proof -
  assume e: "getline s str = (s', str')" and nf: "\<not> failbit s'"
  have "length r < length xs" if "dropWhile P xs = x # r" for P :: "char \<Rightarrow> bool" and xs x r
  proof -
    have "length (dropWhile P xs) \<le> length xs" by (rule length_dropWhile_le)
    with that show ?thesis by simp
  qed
  with e nf show ?thesis
    by (auto simp: getline_def split: if_splits list.splits)
qed

section \<open>The dictionary\<close>

text \<open>
  \<^verbatim>\<open>Dictionary\<close> is a \<^verbatim>\<open>std::unordered_map<std::string, bool>\<close>: a list of entries
  with distinct keys, in the order the range-for of \<^verbatim>\<open>checkWord\<close> visits them.
  \<^verbatim>\<open>result[line] = true\<close> overwrites the entry of an existing key and adds one
  otherwise.
\<close>

type_synonym Dictionary = "(string \<times> bool) list"

function loadDictionary_loop :: "istream \<Rightarrow> string \<Rightarrow> Dictionary \<Rightarrow> Dictionary" where
  "loadDictionary_loop inp line result =
     (case extraction inp line of (inp', line') \<Rightarrow>
        if \<not> failbit inp' then loadDictionary_loop inp' line' (AList.update line' True result)
        else result)"
  by pat_completeness auto
termination
  by (relation "measure (\<lambda>(inp, line, result). length (buf inp))")
     (auto dest: extraction_shorter [OF sym])

text \<open>
  \<^verbatim>\<open>std::ifstream in(filePath)\<close>: a file that cannot be opened gives a stream with
  failbit set, so that the loop reads nothing.
\<close>

definition ifstream :: "string option \<Rightarrow> istream" where
  "ifstream f = (case f of None \<Rightarrow> \<lparr>buf = [], eofbit = False, failbit = True\<rparr>
                 | Some s \<Rightarrow> \<lparr>buf = s, eofbit = False, failbit = False\<rparr>)"

definition loadDictionary :: "string option \<Rightarrow> Dictionary" where
  "loadDictionary f = loadDictionary_loop (ifstream f) [] []"

fun checkWord_loop :: "Dictionary \<Rightarrow> string \<Rightarrow> bool \<Rightarrow> bool" where
  "checkWord_loop [] word isEng = isEng"
| "checkWord_loop (a # as) word isEng =
     checkWord_loop as word (if fst a = word \<and> snd a = True then True else isEng)"

definition checkWord :: "Dictionary \<Rightarrow> string \<Rightarrow> bool" where
  "checkWord dictionary word = checkWord_loop dictionary word False"

section \<open>Counting the words of a response\<close>

text \<open>
  \<^verbatim>\<open>int\<close> is 32 bits wide on the platforms the program is built for. The
  counters are only ever incremented; the increment of the largest value wraps to the
  smallest on these two's-complement machines (ISO C++ leaves it undefined; whatever
  happens there, the counter cannot hold \<open>2 ^ 31\<close>). \<^verbatim>\<open>std::to_string\<close> prints the
  signed value in decimal.
\<close>

type_synonym int32 = "32 word"

function digits :: "nat \<Rightarrow> string" where
  "digits n = (if n < 10 then [char_of (48 + n)] else digits (n div 10) @ [char_of (48 + n mod 10)])"
  by pat_completeness auto
termination
  by (relation "measure id") auto

definition to_string :: "int32 \<Rightarrow> string" where
  "to_string v = (if sint v < 0 then CHR ''-'' # digits (nat (- sint v)) else digits (nat (sint v)))"

text \<open>
  The header loop of \<^verbatim>\<open>processFile\<close>:
  \<^verbatim>\<open>for (std::string hdr; std::getline(is, hdr) && !hdr.empty() && hdr != "\r";) {}\<close>
\<close>

function skipHeaders :: "istream \<Rightarrow> string \<Rightarrow> istream" where
  "skipHeaders s hdr =
     (case getline s hdr of (s', hdr') \<Rightarrow>
        if \<not> failbit s' \<and> hdr' \<noteq> [] \<and> hdr' \<noteq> [CR] then skipHeaders s' hdr' else s')"
  by pat_completeness auto
termination
  apply (relation "measure (\<lambda>(s, hdr). length (buf s))")
   apply simp
  subgoal for s hdr x y
    apply (drule sym)
    apply (simp add: getline_shorter)
    done
  done

text \<open>
  The body of the inner loop: \<^verbatim>\<open>checkWord\<close>, then \<^verbatim>\<open>englishWords++\<close> if the word
  is in the dictionary, then \<^verbatim>\<open>wordCount++\<close>. The pair is
  (\<^verbatim>\<open>wordCount\<close>, \<^verbatim>\<open>englishWords\<close>).
\<close>

definition accumulate :: "Dictionary \<Rightarrow> string \<Rightarrow> int32 \<times> int32 \<Rightarrow> int32 \<times> int32" where
  "accumulate dictionary word tally =
     (case tally of (wordCount, englishWords) \<Rightarrow>
        (let isEng = checkWord dictionary word;
             englishWords' = (if isEng = True then englishWords + 1 else englishWords)
         in (wordCount + 1, englishWords')))"

text \<open>
  The inner loop \<^verbatim>\<open>while (ss >> word)\<close>; \<^verbatim>\<open>word\<close> lives across the iterations.
  The loop is written once for any body applied to the word just read and the state
  the body changes: \<^verbatim>\<open>processFile\<close> runs it with \<open>accumulate dictionary\<close> on the
  two counters, and \<open>payloadWords\<close> below runs the very same loop with a body that
  records the word.
\<close>

function wordLoop :: "(string \<Rightarrow> 'a \<Rightarrow> 'a) \<Rightarrow> istream \<Rightarrow> string \<Rightarrow> 'a \<Rightarrow> string \<times> 'a" where
  "wordLoop body ss word tally =
     (case extraction ss word of (ss', word') \<Rightarrow>
        if \<not> failbit ss' then wordLoop body ss' word' (body word' tally)
        else (word', tally))"
  by pat_completeness auto
termination
  by (relation "measure (\<lambda>(body, ss, word, tally). length (buf ss))")
     (auto dest: extraction_shorter [OF sym])

text \<open>
  What the outer loop does to a chunk before splitting it:
  \<^verbatim>\<open>std::replace_if(line.begin(), line.end(), ::ispunct, ' ')\<close> and then
  \<^verbatim>\<open>std::transform(line.begin(), line.end(), line.begin(), ::tolower)\<close>.
\<close>

definition replace_if :: "(char \<Rightarrow> bool) \<Rightarrow> char \<Rightarrow> string \<Rightarrow> string" where
  "replace_if p new s = map (\<lambda>c. if p c then new else c) s"

definition transform :: "(char \<Rightarrow> char) \<Rightarrow> string \<Rightarrow> string" where
  "transform f s = map f s"

text \<open>The outer loop \<^verbatim>\<open>while (is >> line)\<close>.\<close>

function lineLoop :: "(string \<Rightarrow> 'a \<Rightarrow> 'a) \<Rightarrow> istream \<Rightarrow> string \<Rightarrow> string \<Rightarrow> 'a \<Rightarrow> 'a" where
  "lineLoop body s line word tally =
     (case extraction s line of (s', line') \<Rightarrow>
        if \<not> failbit s' then
          (let line'' = transform tolower (replace_if ispunct CHR '' '' line') in
             case wordLoop body (stringstream line'') word tally of (word', tally') \<Rightarrow>
               lineLoop body s' line'' word' tally')
        else tally)"
  by pat_completeness auto
termination
  by (relation "measure (\<lambda>(body, s, line, word, tally). length (buf s))")
     (auto dest: extraction_shorter [OF sym])

text \<open>
  \<^verbatim>\<open>processFile\<close>: the header loop, the payload loops from both counters at 0, and
  the statistics line. Its parameter \<^verbatim>\<open>os\<close> is never used.
\<close>

definition processFile :: "Dictionary \<Rightarrow> istream \<Rightarrow> string \<Rightarrow> string" where
  "processFile dictionary s file =
     (case lineLoop (accumulate dictionary) (skipHeaders s []) [] [] (0, 0) of
        (wordCount, englishWords) \<Rightarrow>
          file @ '': words='' @ to_string wordCount @ '', English words='' @ to_string englishWords)"

text \<open>
  The words that the loops hand to \<^verbatim>\<open>checkWord\<close>, in order, for a stream that stands
  at the payload: the loops of \<^verbatim>\<open>processFile\<close> with a body that appends the word.
\<close>

definition record_word :: "string \<Rightarrow> string list \<Rightarrow> string list" where
  "record_word word ws = ws @ [word]"

definition payloadWords :: "istream \<Rightarrow> string list" where
  "payloadWords s = lineLoop record_word s [] [] []"

section \<open>Fetching and the threads\<close>

text \<open>
  The network is what a host answers on a port to the bytes of a request before it
  closes the connection, or \<open>None\<close> when no connection can be made.
  \<^verbatim>\<open>boost::asio::ip::tcp::iostream data(host, port)\<close> throws nothing: a failed
  connection leaves the stream with failbit set, the request is not written and every
  read fails.
\<close>

type_synonym network = "string \<Rightarrow> string \<Rightarrow> string \<Rightarrow> string option"

definition tcp_iostream :: "string option \<Rightarrow> istream" where
  "tcp_iostream answer = (case answer of None \<Rightarrow> \<lparr>buf = [], eofbit = False, failbit = True\<rparr>
                 | Some bytes \<Rightarrow> \<lparr>buf = bytes, eofbit = False, failbit = False\<rparr>)"

definition getStats :: "network \<Rightarrow> Dictionary \<Rightarrow> string \<Rightarrow> string" where
  "getStats net dictionary file =
     (let port = ''80'';
          host = ''os1.csi.miamioh.edu'';
          path = ''/~raodm/cse381/hw4/SlowGet.cgi?file='' @ file;
          data = tcp_iostream (net host port
            (''GET '' @ path @ '' HTTP/1.1'' @ [CR, LF] @
             ''Host: '' @ host @ [CR, LF] @
             ''Connection: Close'' @ [CR, LF, CR, LF]));
          results = processFile dictionary data file
      in results)"

text \<open>
  \<^verbatim>\<open>main\<close>: one thread per argument writes \<^verbatim>\<open>stats[i] = getStats(argv[i])\<close>; all
  threads are joined; the slots 1 to \<^verbatim>\<open>argc - 1\<close> are printed, each with a line feed;
  0 is returned. The threads run concurrently. A thread reads its own argument and the
  constant dictionary and writes nothing but its own slot of the vector, which has its
  \<^verbatim>\<open>argc\<close> slots from the start; so all that scheduling can change is the order in
  which the assignments take effect, and \<open>order\<close> is that order. After the joins every
  thread has run, so \<open>order\<close> enumerates the indices from 1 to \<^verbatim>\<open>argc - 1\<close>. The
  result is the text written to standard output and the exit code. The dictionary is
  the global \<^verbatim>\<open>dictionary\<close>, initialised with \<open>loadDictionary\<close> before \<^verbatim>\<open>main\<close> runs.
\<close>

definition thread :: "network \<Rightarrow> Dictionary \<Rightarrow> string list \<Rightarrow> nat \<Rightarrow> string list \<Rightarrow> string list" where
  "thread net dictionary argv i stats = stats[i := getStats net dictionary (argv ! i)]"

definition joined :: "network \<Rightarrow> Dictionary \<Rightarrow> nat list \<Rightarrow> string list \<Rightarrow> string list" where
  "joined net dictionary order argv =
     fold (thread net dictionary argv) order (replicate (length argv) [])"

definition main :: "network \<Rightarrow> Dictionary \<Rightarrow> nat list \<Rightarrow> string list \<Rightarrow> string \<times> int" where
  "main net dictionary order argv =
     (let argc = length argv;
          stats = joined net dictionary order argv
      in (concat (map (\<lambda>i. stats ! i @ [LF]) [1..<argc]), 0))"

section \<open>The specification's vocabulary\<close>

text \<open>
  The fragments of a text between separator characters; there is one more fragment
  than there are separators, and a fragment may be empty.
\<close>

fun split_on :: "(char \<Rightarrow> bool) \<Rightarrow> string \<Rightarrow> string list" where
  "split_on sep [] = [[]]"
| "split_on sep (c # cs) =
     (if sep c then [] # split_on sep cs
      else (case split_on sep cs of [] \<Rightarrow> [[c]] | f # fs \<Rightarrow> (c # f) # fs))"

text \<open>Splitting on runs of whitespace, discarding empty fragments.\<close>

definition split_whitespace :: "string \<Rightarrow> string list" where
  "split_whitespace s = filter (\<lambda>f. f \<noteq> []) (split_on isspace s)"

text \<open>
  The specification's tokenizer: every punctuation character becomes a space, every
  letter is lowercased, and the result is split on runs of whitespace.
\<close>

definition tokenize :: "string \<Rightarrow> string list" where
  "tokenize line =
     split_whitespace (map tolower (map (\<lambda>c. if ispunct c then CHR '' '' else c) line))"

text \<open>
  The specification's reference set: the whitespace-delimited tokens of the reference
  file, as a set; \<open>contains\<close> is membership in it.
\<close>

definition referenceSet :: "string option \<Rightarrow> string set" where
  "referenceSet f = (case f of None \<Rightarrow> {} | Some s \<Rightarrow> set (split_whitespace s))"

definition contains :: "string set \<Rightarrow> string \<Rightarrow> bool" where
  "contains reference word = (word \<in> reference)"

text \<open>
  The number of maximal runs of characters with a property: a run ends at a character
  that has the property and is the last one or is followed by one without it.
\<close>

fun count_runs :: "(char \<Rightarrow> bool) \<Rightarrow> string \<Rightarrow> nat" where
  "count_runs p [] = 0"
| "count_runs p [c] = (if p c then 1 else 0)"
| "count_runs p (c # d # cs) = (if p c \<and> \<not> p d then 1 else 0) + count_runs p (d # cs)"

definition wordchar :: "char \<Rightarrow> bool" where
  "wordchar c = (\<not> isspace c \<and> \<not> ispunct c)"

text \<open>
  The lines of a stream as \<^verbatim>\<open>std::getline\<close> delivers them: the fragments between
  line feeds, without the fragment after the last line feed when it is empty. The
  boundary between header and payload is an empty line or a line that is only a
  carriage return.
\<close>

definition lines :: "string \<Rightarrow> string list" where
  "lines s = (let fs = split_on (\<lambda>c. c = LF) s in if last fs = [] then butlast fs else fs)"

definition no_boundary :: "string \<Rightarrow> bool" where
  "no_boundary s = list_all (\<lambda>l. l \<noteq> [] \<and> l \<noteq> [CR]) (lines s)"

section \<open>Auxiliary definitions for the proofs\<close>

text \<open>
  What the extractions of a loop \<^verbatim>\<open>while (is >> x)\<close> will read from a stream, in
  order: nothing unless the stream is good.
\<close>

definition pending :: "istream \<Rightarrow> string list" where
  "pending s = (if good s then split_whitespace (buf s) else [])"

text \<open>The two passes of the outer loop over a chunk, and what they do to one character.\<close>

definition normalize :: "string \<Rightarrow> string" where
  "normalize chunk = transform tolower (replace_if ispunct CHR '' '' chunk)"

definition lower_unpunct :: "char \<Rightarrow> char" where
  "lower_unpunct c = tolower (if ispunct c then CHR '' '' else c)"

text \<open>
  The answer to the request that \<^verbatim>\<open>getStats\<close> sends for a file, and three networks
  to run the program on: one where no connection can be made, one that serves a
  response with an empty body to every request, and one that serves the two words
  "one two" for the file b and cannot be reached for any other file.
\<close>

definition answer :: "network \<Rightarrow> string \<Rightarrow> string option" where
  "answer net file = net ''os1.csi.miamioh.edu'' ''80''
     (''GET '' @ (''/~raodm/cse381/hw4/SlowGet.cgi?file='' @ file) @ '' HTTP/1.1'' @ [CR, LF] @
      ''Host: '' @ ''os1.csi.miamioh.edu'' @ [CR, LF] @
      ''Connection: Close'' @ [CR, LF, CR, LF])"

definition unreachable :: network where
  "unreachable host port request = None"

definition empty_page :: network where
  "empty_page host port request = Some (''HTTP/1.1 200 OK'' @ [CR, LF, CR, LF])"

definition flaky :: network where
  "flaky host port request =
     (if request = ''GET /~raodm/cse381/hw4/SlowGet.cgi?file=b HTTP/1.1'' @ [CR, LF] @
          ''Host: os1.csi.miamioh.edu'' @ [CR, LF] @ ''Connection: Close'' @ [CR, LF, CR, LF]
      then Some (''HTTP/1.1 200 OK'' @ [CR, LF, CR, LF] @ ''one two'') else None)"

section \<open>What the loops compute\<close>

declare wordLoop.simps [simp del] lineLoop.simps [simp del] skipHeaders.simps [simp del]
  loadDictionary_loop.simps [simp del] digits.simps [simp del]

lemma split_on_not_Nil: "split_on sep s \<noteq> []"
  by (induction s) (auto split: list.splits)

lemma split_on_unfold:
  "split_on sep s = takeWhile (\<lambda>c. \<not> sep c) s #
     (case dropWhile (\<lambda>c. \<not> sep c) s of [] \<Rightarrow> [] | c # r \<Rightarrow> split_on sep r)"
  by (induction s) simp_all

lemma split_whitespace_Nil: "split_whitespace [] = []"
  by (simp add: split_whitespace_def)

lemma split_whitespace_space: "isspace c \<Longrightarrow> split_whitespace (c # cs) = split_whitespace cs"
  by (simp add: split_whitespace_def)

lemma split_whitespace_dropWhile: "split_whitespace (dropWhile isspace s) = split_whitespace s"
  by (induction s) (auto simp: split_whitespace_space)

lemma split_whitespace_word:
  assumes "s \<noteq> []" and "\<not> isspace (hd s)"
  shows "split_whitespace s =
    takeWhile (\<lambda>c. \<not> isspace c) s # split_whitespace (dropWhile (\<lambda>c. \<not> isspace c) s)"
proof -
  define r where "r = dropWhile (\<lambda>c. \<not> isspace c) s"
  have u: "split_on isspace s = takeWhile (\<lambda>c. \<not> isspace c) s #
      (case r of [] \<Rightarrow> [] | c # r' \<Rightarrow> split_on isspace r')"
    unfolding r_def by (rule split_on_unfold)
  have t: "takeWhile (\<lambda>c. \<not> isspace c) s \<noteq> []"
    using assms by (cases s) auto
  have "filter (\<lambda>f. f \<noteq> []) (case r of [] \<Rightarrow> [] | c # r' \<Rightarrow> split_on isspace r') =
      split_whitespace r"
  proof (cases r)
    case Nil
    then show ?thesis by (simp add: split_whitespace_Nil)
  next
    case (Cons c r')
    then have "isspace c" using hd_dropWhile [of "\<lambda>c. \<not> isspace c" s] by (auto simp: r_def)
    with Cons show ?thesis by (simp add: split_whitespace_def)
  qed
  with u t show ?thesis by (simp add: split_whitespace_def r_def)
qed

lemma extraction_fail: "pending s = [] \<Longrightarrow> failbit (fst (extraction s str))"
proof -
  assume p: "pending s = []"
  show ?thesis
  proof (cases "good s")
    case False
    then show ?thesis by (simp add: extraction_def)
  next
    case True
    with p have "split_whitespace (dropWhile isspace (buf s)) = []"
      by (simp add: pending_def split_whitespace_dropWhile)
    then have "dropWhile isspace (buf s) = []"
      using split_whitespace_word [of "dropWhile isspace (buf s)"] hd_dropWhile [of isspace "buf s"]
      by auto
    with True show ?thesis by (simp add: extraction_def)
  qed
qed

lemma extraction_ok:
  assumes "pending s = w # ws"
  shows "\<exists>s'. extraction s str = (s', w) \<and> \<not> failbit s' \<and> pending s' = ws"
proof -
  from assms have g: "good s" and sw: "split_whitespace (buf s) = w # ws"
    by (auto simp: pending_def split: if_splits)
  define b where "b = dropWhile isspace (buf s)"
  define r where "r = dropWhile (\<lambda>c. \<not> isspace c) b"
  have swb: "split_whitespace b = w # ws"
    using sw by (simp add: b_def split_whitespace_dropWhile)
  then have ne: "b \<noteq> []" by (auto simp: split_whitespace_Nil)
  then have "\<not> isspace (hd b)" unfolding b_def by (simp add: hd_dropWhile)
  from split_whitespace_word [OF ne this] swb
  have w: "w = takeWhile (\<lambda>c. \<not> isspace c) b" and ws: "ws = split_whitespace r"
    by (auto simp: r_def)
  have e: "extraction s str = (s\<lparr>buf := r, eofbit := (r = [])\<rparr>, w)"
    using g ne by (simp add: extraction_def Let_def b_def [symmetric] r_def [symmetric] w)
  have "pending (s\<lparr>buf := r, eofbit := (r = [])\<rparr>) = ws"
    using g by (cases "r = []") (simp_all add: pending_def good_def ws split_whitespace_Nil)
  with e g show ?thesis by (simp add: good_def)
qed

lemma wordLoop_fold: "snd (wordLoop body ss word acc) = fold body (pending ss) acc"
proof (induction ws \<equiv> "pending ss" arbitrary: ss word acc)
  case Nil
  then have "failbit (fst (extraction ss word))" by (simp add: extraction_fail)
  with Nil show ?case
    by (subst wordLoop.simps) (auto split: prod.splits)
next
  case (Cons w ws)
  from extraction_ok [OF Cons.hyps(2) [symmetric], of word]
  obtain s' where e: "extraction ss word = (s', w)" and nf: "\<not> failbit s'" and p: "pending s' = ws"
    by blast
  from Cons.hyps(1) [OF p [symmetric]] e nf p Cons.hyps(2) [symmetric] show ?case
    by (subst wordLoop.simps) simp
qed

lemma lineLoop_fold:
  "lineLoop body s line word acc =
     fold body (concat (map (\<lambda>chunk. split_whitespace (normalize chunk)) (pending s))) acc"
proof (induction ws \<equiv> "pending s" arbitrary: s line word acc)
  case Nil
  then have "failbit (fst (extraction s line))" by (simp add: extraction_fail)
  with Nil show ?case
    by (subst lineLoop.simps) (auto split: prod.splits)
next
  case (Cons w ws)
  from extraction_ok [OF Cons.hyps(2) [symmetric], of line]
  obtain s' where e: "extraction s line = (s', w)" and nf: "\<not> failbit s'" and p: "pending s' = ws"
    by blast
  have wl: "wordLoop body (stringstream (normalize w)) word acc =
      (fst (wordLoop body (stringstream (normalize w)) word acc),
       fold body (split_whitespace (normalize w)) acc)"
    using wordLoop_fold [of body "stringstream (normalize w)" word acc]
    by (simp add: pending_def good_def stringstream_def prod_eq_iff)
  show ?case
    apply (subst lineLoop.simps)
    apply (simp add: e nf Let_def normalize_def [symmetric])
    apply (subst wl)
    apply (simp add: Cons.hyps(1) [OF p [symmetric]] Cons.hyps(2) [symmetric] p)
    done
qed

lemma loadDictionary_loop_fold:
  "loadDictionary_loop inp line result = fold (\<lambda>w d. AList.update w True d) (pending inp) result"
proof (induction ws \<equiv> "pending inp" arbitrary: inp line result)
  case Nil
  then have "failbit (fst (extraction inp line))" by (simp add: extraction_fail)
  with Nil show ?case
    by (subst loadDictionary_loop.simps) (auto split: prod.splits)
next
  case (Cons w ws)
  from extraction_ok [OF Cons.hyps(2) [symmetric], of line]
  obtain s' where e: "extraction inp line = (s', w)" and nf: "\<not> failbit s'" and p: "pending s' = ws"
    by blast
  from Cons.hyps(1) [OF p [symmetric]] e nf p Cons.hyps(2) [symmetric] show ?case
    by (subst loadDictionary_loop.simps) simp
qed

lemma split_on_append_sep:
  "sep c \<Longrightarrow> split_on sep (xs @ c # ys) = split_on sep xs @ split_on sep ys"
  by (induction xs) (auto split: list.splits simp: split_on_not_Nil)

lemma split_whitespace_all_space: "\<forall>c\<in>set xs. isspace c \<Longrightarrow> split_whitespace (xs @ ys) = split_whitespace ys"
  by (induction xs) (simp_all add: split_whitespace_space)

lemma split_whitespace_append:
  assumes "ys = [] \<or> isspace (hd ys)"
  shows "split_whitespace (xs @ ys) = split_whitespace xs @ split_whitespace ys"
proof (cases ys)
  case Nil
  then show ?thesis by (simp add: split_whitespace_Nil)
next
  case (Cons c cs)
  with assms have c: "isspace c" by simp
  then have "split_whitespace (xs @ c # cs) = split_whitespace xs @ split_whitespace cs"
    by (simp add: split_whitespace_def split_on_append_sep)
  with c Cons show ?thesis by (simp add: split_whitespace_space)
qed

lemma split_whitespace_map:
  assumes f: "\<And>c. isspace c \<Longrightarrow> isspace (f c)"
  shows "split_whitespace (map f s) =
    concat (map (\<lambda>chunk. split_whitespace (map f chunk)) (split_whitespace s))"
proof (induction ws \<equiv> "split_whitespace s" arbitrary: s)
  case Nil
  have "dropWhile isspace s = []"
  proof (rule ccontr)
    assume ne: "dropWhile isspace s \<noteq> []"
    then have "\<not> isspace (hd (dropWhile isspace s))" by (simp add: hd_dropWhile)
    from split_whitespace_word [OF ne this] Nil show False
      by (simp add: split_whitespace_dropWhile)
  qed
  then have "\<forall>c\<in>set (map f s). isspace c" by (auto simp: f)
  from split_whitespace_all_space [OF this, of "[]"] Nil show ?case
    by (simp add: split_whitespace_Nil)
next
  case (Cons w ws)
  define pre where "pre = takeWhile isspace s"
  define b where "b = dropWhile isspace s"
  define r where "r = dropWhile (\<lambda>c. \<not> isspace c) b"
  have s: "s = pre @ b" by (simp add: pre_def b_def)
  have swb: "split_whitespace b = w # ws"
    using Cons.hyps(2) by (simp add: b_def split_whitespace_dropWhile)
  then have ne: "b \<noteq> []" by (auto simp: split_whitespace_Nil)
  then have "\<not> isspace (hd b)" unfolding b_def by (simp add: hd_dropWhile)
  from split_whitespace_word [OF ne this] swb
  have w: "w = takeWhile (\<lambda>c. \<not> isspace c) b" and ws: "ws = split_whitespace r"
    by (auto simp: r_def)
  have b: "b = w @ r" by (simp add: w r_def)
  have "\<forall>c\<in>set (map f pre). isspace c"
    using set_takeWhileD [of _ isspace s] by (auto simp: pre_def f)
  then have 1: "split_whitespace (map f s) = split_whitespace (map f w @ map f r)"
    by (simp add: s b split_whitespace_all_space)
  have "r = [] \<or> isspace (hd r)"
    using hd_dropWhile [of "\<lambda>c. \<not> isspace c" b] by (auto simp: r_def)
  then have "map f r = [] \<or> isspace (hd (map f r))"
    by (cases r) (auto simp: f)
  then have 2: "split_whitespace (map f w @ map f r) =
      split_whitespace (map f w) @ split_whitespace (map f r)"
    by (rule split_whitespace_append)
  from Cons.hyps(1) [OF ws] have 3: "split_whitespace (map f r) =
      concat (map (\<lambda>chunk. split_whitespace (map f chunk)) ws)"
    by (simp add: ws)
  from 1 2 3 Cons.hyps(2) [symmetric] show ?case by simp
qed

lemma normalize_map: "normalize chunk = map lower_unpunct chunk"
  by (simp add: normalize_def transform_def replace_if_def lower_unpunct_def [abs_def] comp_def)

lemma tokenize_map: "tokenize line = split_whitespace (map lower_unpunct line)"
  by (simp add: tokenize_def lower_unpunct_def [abs_def] comp_def)

lemma tolower_space: "tolower CHR '' '' = CHR '' ''"
  by (simp add: tolower_def isupper_def)

lemma isspace_space: "isspace CHR '' ''"
  by (simp add: isspace_def)

lemma of_char_tolower:
  "(of_char (tolower c) :: nat) = (if isupper c then of_char c + 32 else of_char c)"
  by (simp add: tolower_def isupper_def Let_def)

lemma isspace_lower_unpunct: "isspace (lower_unpunct c) = (\<not> wordchar c)"
  unfolding lower_unpunct_def wordchar_def
  by (cases "ispunct c")
     (auto simp: tolower_space isspace_space isspace_def [of "tolower c"] of_char_tolower,
      auto simp: isspace_def ispunct_def isupper_def Let_def)

lemma isupper_lower_unpunct: "\<not> isupper (lower_unpunct c)"
  unfolding lower_unpunct_def
  by (auto simp: tolower_space isupper_def [of "tolower c"] of_char_tolower,
      auto simp: isupper_def Let_def)

lemma fold_record_word: "fold record_word ws acc = acc @ ws"
  by (induction ws arbitrary: acc) (simp_all add: record_word_def)

lemma payloadWords_stringstream: "payloadWords (stringstream payload) = tokenize payload"
proof -
  have "isspace (lower_unpunct c)" if "isspace c" for c
    using that by (simp add: isspace_lower_unpunct wordchar_def)
  from split_whitespace_map [of lower_unpunct payload, OF this]
  show ?thesis
    by (simp add: payloadWords_def lineLoop_fold fold_record_word pending_def good_def
        stringstream_def normalize_map tokenize_map)
qed

lemma count_runs_Cons:
  "count_runs p (c # s) = (if p c \<and> (s = [] \<or> \<not> p (hd s)) then 1 else 0) + count_runs p s"
  by (cases s) simp_all

lemma length_split_whitespace: "length (split_whitespace s) = count_runs (\<lambda>c. \<not> isspace c) s"
proof (induction s)
  case Nil
  then show ?case by (simp add: split_whitespace_Nil)
next
  case (Cons c s)
  show ?case
  proof (cases "isspace c")
    case True
    with Cons show ?thesis by (simp add: split_whitespace_space count_runs_Cons)
  next
    case False
    define f where "f = takeWhile (\<lambda>c. \<not> isspace c) s"
    define fs where "fs = (case dropWhile (\<lambda>c. \<not> isspace c) s of [] \<Rightarrow> []
      | c # r \<Rightarrow> split_on isspace r)"
    have u: "split_on isspace s = f # fs"
      unfolding f_def fs_def by (rule split_on_unfold)
    have fe: "(f = []) = (s = [] \<or> isspace (hd s))"
      unfolding f_def by (cases s) auto
    from False u have "length (split_whitespace (c # s)) = Suc (length (filter (\<lambda>f. f \<noteq> []) fs))"
      by (simp add: split_whitespace_def)
    moreover have "length (split_whitespace s) =
        (if f = [] then 0 else 1) + length (filter (\<lambda>f. f \<noteq> []) fs)"
      using u by (simp add: split_whitespace_def)
    ultimately show ?thesis
      using Cons False fe by (simp add: count_runs_Cons)
  qed
qed

lemma count_runs_map: "count_runs p (map f s) = count_runs (\<lambda>c. p (f c)) s"
  by (induction "\<lambda>c. p (f c)" s rule: count_runs.induct) auto

lemma length_tokenize: "length (tokenize text) = count_runs wordchar text"
  by (simp add: tokenize_map length_split_whitespace count_runs_map isspace_lower_unpunct)

lemma fold_accumulate:
  "fold (accumulate dictionary) T (wordCount, englishWords) =
     (wordCount + of_nat (length T), englishWords + of_nat (length (filter (checkWord dictionary) T)))"
  by (induction T arbitrary: wordCount englishWords) (simp_all add: accumulate_def)

lemma checkWord_loop_iff: "checkWord_loop d word isEng = (isEng \<or> (word, True) \<in> set d)"
  by (induction d arbitrary: isEng) (auto simp: prod_eq_iff)

lemma checkWord_iff: "checkWord d word = ((word, True) \<in> set d)"
  by (simp add: checkWord_def checkWord_loop_iff)

lemma set_update_True:
  "\<forall>e\<in>set d. snd e = True \<Longrightarrow> set (AList.update w True d) = insert (w, True) (set d)"
  by (induction d) (auto simp: prod_eq_iff)

lemma set_fold_update_True:
  "\<forall>e\<in>set d. snd e = True \<Longrightarrow>
     set (fold (\<lambda>w d. AList.update w True d) ws d) = set d \<union> (\<lambda>w. (w, True)) ` set ws"
proof (induction ws arbitrary: d)
  case Nil
  then show ?case by simp
next
  case (Cons w ws)
  have "\<forall>e\<in>set (AList.update w True d). snd e = True"
    using Cons.prems by (auto simp: set_update_True)
  from Cons.IH [OF this] Cons.prems show ?case
    by (simp add: set_update_True)
qed

lemma set_loadDictionary: "set (loadDictionary f) = (\<lambda>w. (w, True)) ` referenceSet f"
  by (cases f)
     (simp_all add: loadDictionary_def loadDictionary_loop_fold set_fold_update_True
        referenceSet_def pending_def good_def ifstream_def)

lemma sint_of_nat_small: "n < 2 ^ 31 \<Longrightarrow> sint (of_nat n :: 32 word) = int n"
  by (simp add: signed_of_nat signed_take_bit_int_eq_self)

lemma sint_of_nat_2_31: "sint (of_nat (2 ^ 31) :: 32 word) = - (2 ^ 31)"
  by simp

subsection \<open>The header loop\<close>

lemma getline_bad: "\<not> good s \<Longrightarrow> getline s str = (s\<lparr>failbit := True\<rparr>, str)"
  by (simp add: getline_def)

lemma getline_empty: "good s \<Longrightarrow> buf s = [] \<Longrightarrow> failbit (fst (getline s str))"
  by (simp add: getline_def)

lemma dropWhile_until: "x \<notin> set l \<Longrightarrow> dropWhile (\<lambda>c. c \<noteq> x) (l @ x # r) = x # r"
  by (induction l) auto

lemma takeWhile_until: "x \<notin> set l \<Longrightarrow> takeWhile (\<lambda>c. c \<noteq> x) (l @ x # r) = l"
  by (induction l) auto

lemma dropWhile_absent: "x \<notin> set l \<Longrightarrow> dropWhile (\<lambda>c. c \<noteq> x) l = []"
  by (induction l) auto

lemma getline_last:
  "good s \<Longrightarrow> buf s \<noteq> [] \<Longrightarrow> LF \<notin> set (buf s) \<Longrightarrow>
     getline s str = (s\<lparr>buf := [], eofbit := True\<rparr>, buf s)"
  by (simp add: getline_def dropWhile_absent del: dropWhile_eq_Nil_conv)

lemma getline_line:
  assumes "good s" and "buf s = l @ LF # r" and "LF \<notin> set l"
  shows "getline s str = (s\<lparr>buf := r\<rparr>, l)"
  using assms(1,2) dropWhile_until [OF assms(3), of r] takeWhile_until [OF assms(3), of r]
  by (simp add: getline_def)

lemma skipHeaders_bad: "\<not> good s \<Longrightarrow> skipHeaders s hdr = s\<lparr>failbit := True\<rparr>"
  by (subst skipHeaders.simps) (simp add: getline_bad)

lemma skipHeaders_envelope:
  assumes "good s"
    and "\<forall>h\<in>set hdrs. h \<noteq> [] \<and> h \<noteq> [CR] \<and> LF \<notin> set h"
    and "b = [] \<or> b = [CR]"
    and "buf s = concat (map (\<lambda>h. h @ [LF]) hdrs) @ b @ LF # payload"
  shows "skipHeaders s hdr = s\<lparr>buf := payload\<rparr>"
  using assms
proof (induction hdrs arbitrary: s hdr)
  case Nil
  then have "LF \<notin> set b" by (auto simp: CR_def LF_def)
  with Nil have "getline s hdr = (s\<lparr>buf := payload\<rparr>, b)"
    by (intro getline_line) simp_all
  with Nil(3) show ?case
    by (subst skipHeaders.simps) auto
next
  case (Cons h hdrs)
  let ?rest = "concat (map (\<lambda>h. h @ [LF]) hdrs) @ b @ LF # payload"
  from Cons.prems have h: "h \<noteq> []" "h \<noteq> [CR]" "LF \<notin> set h" by auto
  from Cons.prems have "buf s = h @ LF # ?rest" by simp
  with Cons.prems(1) h(3) have g: "getline s hdr = (s\<lparr>buf := ?rest\<rparr>, h)"
    by (intro getline_line) simp_all
  have "skipHeaders (s\<lparr>buf := ?rest\<rparr>) h = s\<lparr>buf := ?rest\<rparr>\<lparr>buf := payload\<rparr>"
    using Cons.prems by (intro Cons.IH) (auto simp: good_def)
  with g h Cons.prems(1) show ?case
    by (subst skipHeaders.simps) (simp add: good_def)
qed

lemma split_on_no_sep: "\<forall>c\<in>set s. \<not> sep c \<Longrightarrow> split_on sep s = [s]"
  by (induction s) simp_all

lemma lines_no_LF:
  assumes "LF \<notin> set b" and "b \<noteq> []"
  shows "lines b = [b]"
proof -
  from assms(1) have "\<forall>c\<in>set b. \<not> c = LF" by auto
  then have "split_on (\<lambda>c. c = LF) b = [b]" by (rule split_on_no_sep)
  with assms(2) show ?thesis by (simp add: lines_def)
qed

lemma lines_LF:
  assumes "LF \<notin> set l"
  shows "lines (l @ LF # r) = l # lines r"
proof -
  have "split_on (\<lambda>c. c = LF) (l @ LF # r) = l # split_on (\<lambda>c. c = LF) r"
    by (subst split_on_unfold)
      (simp only: dropWhile_until [OF assms] takeWhile_until [OF assms] list.case)
  then show ?thesis
    by (simp add: lines_def Let_def split_on_not_Nil)
qed

lemma skipHeaders_no_boundary:
  "good s \<longrightarrow> no_boundary (buf s) \<Longrightarrow>
     failbit (skipHeaders s hdr) \<and> (good s \<longrightarrow> buf (skipHeaders s hdr) = [])"
proof (induction n \<equiv> "length (buf s)" arbitrary: s hdr rule: less_induct)
  case less
  show ?case
  proof (cases "good s")
    case False
    then show ?thesis by (simp add: skipHeaders_bad)
  next
    case True
    with less.prems have nb: "no_boundary (buf s)" by simp
    show ?thesis
    proof (cases "buf s = []")
      case e: True
      from getline_empty [OF True e, of hdr] True e show ?thesis
        by (subst (1 2) skipHeaders.simps) (auto simp: getline_def split: prod.splits)
    next
      case ne: False
      show ?thesis
      proof (cases "LF \<in> set (buf s)")
        case False
        from getline_last [OF True ne False]
        have g: "getline s hdr = (s\<lparr>buf := [], eofbit := True\<rparr>, buf s)" .
        have "\<not> good (s\<lparr>buf := [], eofbit := True\<rparr>)" by (simp add: good_def)
        moreover from nb lines_no_LF [OF False ne] have "buf s \<noteq> [CR]"
          by (simp add: no_boundary_def)
        ultimately show ?thesis
          using g ne \<open>good s\<close> by (subst (1 2) skipHeaders.simps) (simp add: skipHeaders_bad)
      next
        case True
        define l where "l = takeWhile (\<lambda>c. c \<noteq> LF) (buf s)"
        define r where "r = tl (dropWhile (\<lambda>c. c \<noteq> LF) (buf s))"
        from True have "dropWhile (\<lambda>c. c \<noteq> LF) (buf s) \<noteq> []" by auto
        then have "dropWhile (\<lambda>c. c \<noteq> LF) (buf s) = LF # r"
          using hd_dropWhile [of "\<lambda>c. c \<noteq> LF" "buf s"] by (cases "dropWhile (\<lambda>c. c \<noteq> LF) (buf s)") (auto simp: r_def)
        then have b: "buf s = l @ LF # r"
          unfolding l_def by (metis takeWhile_dropWhile_id)
        have nl: "LF \<notin> set l"
          unfolding l_def using set_takeWhileD by fastforce
        from getline_line [OF \<open>good s\<close> b nl]
        have g: "getline s hdr = (s\<lparr>buf := r\<rparr>, l)" .
        from nb have l: "l \<noteq> []" "l \<noteq> [CR]" and nbr: "no_boundary r"
          by (simp_all add: b lines_LF [OF nl] no_boundary_def)
        have "failbit (skipHeaders (s\<lparr>buf := r\<rparr>) l) \<and>
            (good (s\<lparr>buf := r\<rparr>) \<longrightarrow> buf (skipHeaders (s\<lparr>buf := r\<rparr>) l) = [])"
          using nbr b by (intro less.hyps) simp_all
        with g l \<open>good s\<close> show ?thesis
          by (subst (1 2) skipHeaders.simps) (simp add: good_def)
      qed
    qed
  qed
qed

lemma lineLoop_failed: "failbit s \<Longrightarrow> lineLoop body s line word tally = tally"
  by (simp add: lineLoop_fold pending_def good_def)

lemma digits_0: "digits 0 = ''0''"
  by (subst digits.simps) (simp add: char_of_eq_iff)

lemma to_string_0: "to_string 0 = ''0''"
  by (simp add: to_string_def digits_0)

lemma tcp_iostream_Some: "tcp_iostream (Some bytes) = stringstream bytes"
  by (simp add: tcp_iostream_def stringstream_def)

subsection \<open>Fetching, threads and dictionaries\<close>

lemma getStats_answer:
  "getStats net dictionary file = processFile dictionary (tcp_iostream (answer net file)) file"
  by (simp add: getStats_def answer_def)

lemma processFile_failed:
  "failbit s \<Longrightarrow> processFile dictionary s file = file @ '': words=0, English words=0''"
  by (simp add: processFile_def skipHeaders_bad good_def lineLoop_failed to_string_0)

lemma length_fold_thread: "length (fold (thread net d argv) order st) = length st"
  by (induction order arbitrary: st) (simp_all add: thread_def)

lemma fold_thread_nth:
  "i < length st \<Longrightarrow> fold (thread net d argv) order st ! i =
     (if i \<in> set order then getStats net d (argv ! i) else st ! i)"
  by (induction order arbitrary: st) (auto simp: thread_def nth_list_update)

lemma joined_nth:
  "i \<in> set order \<Longrightarrow> i < length argv \<Longrightarrow>
     joined net d order argv ! i = getStats net d (argv ! i)"
  by (simp add: joined_def fold_thread_nth)

lemma tl_as_nths: "map ((!) xs) [1..<length xs] = tl xs"
  by (rule nth_equalityI) (simp_all add: nth_tl)

lemma main_output:
  assumes "set order = set [1..<length argv]"
  shows "fst (main net d order argv) = concat (map (\<lambda>file. getStats net d file @ [LF]) (tl argv))"
proof -
  have 1: "map (\<lambda>i. joined net d order argv ! i @ [LF]) [1..<length argv] =
      map (\<lambda>i. getStats net d (argv ! i) @ [LF]) [1..<length argv]"
    using assms by (intro map_cong refl) (simp add: joined_nth)
  have "map (\<lambda>file. getStats net d file @ [LF]) (map ((!) argv) [1..<length argv]) =
      map (\<lambda>i. getStats net d (argv ! i) @ [LF]) [1..<length argv]"
    by (simp add: comp_def)
  then have 2: "map (\<lambda>i. getStats net d (argv ! i) @ [LF]) [1..<length argv] =
      map (\<lambda>file. getStats net d file @ [LF]) (tl argv)"
    by (simp only: tl_as_nths)
  show ?thesis
    by (simp only: main_def Let_def fst_conv 1 2)
qed

lemma set_split_on: "f \<in> set (split_on sep t) \<Longrightarrow> set f \<subseteq> set t"
proof (induction t arbitrary: f)
  case Nil
  then show ?case by simp
next
  case (Cons a t)
  obtain g gs where s: "split_on sep t = g # gs"
    using split_on_not_Nil [of sep t] by (cases "split_on sep t") auto
  show ?case
  proof (cases "sep a")
    case True
    with Cons show ?thesis by auto
  next
    case False
    with Cons.prems s have "f = a # g \<or> f \<in> set gs" by simp
    moreover have "set g \<subseteq> set t" using Cons.IH [of g] s by simp
    moreover have "f \<in> set gs \<Longrightarrow> set f \<subseteq> set t" using Cons.IH [of f] s by simp
    ultimately show ?thesis by auto
  qed
qed

lemma set_split_whitespace: "w \<in> set (split_whitespace t) \<Longrightarrow> set w \<subseteq> set t"
  by (auto simp: split_whitespace_def dest: set_split_on)

lemma words_lower:
  assumes "w \<in> set (concat (map (\<lambda>chunk. split_whitespace (normalize chunk)) chunks))"
  shows "\<forall>c\<in>set w. \<not> isupper c"
proof -
  from assms obtain chunk where "w \<in> set (split_whitespace (map lower_unpunct chunk))"
    by (auto simp: normalize_map)
  then have "set w \<subseteq> lower_unpunct ` set chunk"
    using set_split_whitespace by fastforce
  then show ?thesis using isupper_lower_unpunct by auto
qed

lemma checkWord_remove: "w \<noteq> e \<Longrightarrow> checkWord (filter (\<lambda>a. fst a \<noteq> e) d) w = checkWord d w"
  by (auto simp: checkWord_iff)

lemma fold_accumulate_cong:
  assumes "\<forall>w\<in>set ws. checkWord d' w = checkWord d w"
  shows "fold (accumulate d') ws t = fold (accumulate d) ws t"
proof -
  from assms have "filter (checkWord d') ws = filter (checkWord d) ws"
    by (intro filter_cong) simp_all
  then show ?thesis by (cases t) (simp add: fold_accumulate)
qed

lemma chunks_tokenize:
  "concat (map (\<lambda>chunk. split_whitespace (normalize chunk)) (split_whitespace payload)) =
     tokenize payload"
proof -
  have "isspace (lower_unpunct c)" if "isspace c" for c
    using that by (simp add: isspace_lower_unpunct wordchar_def)
  from split_whitespace_map [of lower_unpunct payload, OF this]
  show ?thesis by (simp add: normalize_map tokenize_map)
qed

lemma lineLoop_stringstream:
  "lineLoop (accumulate d) (stringstream payload) line word (wordCount, englishWords) =
     (wordCount + of_nat (length (tokenize payload)),
      englishWords + of_nat (length (filter (checkWord d) (tokenize payload))))"
  by (simp add: lineLoop_fold fold_accumulate pending_def good_def stringstream_def chunks_tokenize)

lemma count_runs_replicate: "count_runs wordchar (concat (replicate n ''a '')) = n"
proof (induction n)
  case 0
  then show ?case by simp
next
  case (Suc n)
  have "wordchar CHR ''a''" "\<not> wordchar CHR '' ''"
    by (simp_all add: wordchar_def isspace_def ispunct_def)
  with Suc show ?case by (simp add: count_runs_Cons)
qed

subsection \<open>Responses with an envelope, and evaluation\<close>

lemma processFile_envelope:
  assumes "\<forall>h\<in>set hdrs. h \<noteq> [] \<and> h \<noteq> [CR] \<and> LF \<notin> set h" and "b = [] \<or> b = [CR]"
  shows "processFile d (stringstream (concat (map (\<lambda>h. h @ [LF]) hdrs) @ b @ LF # payload)) file =
    file @ '': words='' @ to_string (of_nat (length (tokenize payload))) @
    '', English words='' @ to_string (of_nat (length (filter (checkWord d) (tokenize payload))))"
proof -
  let ?s = "stringstream (concat (map (\<lambda>h. h @ [LF]) hdrs) @ b @ LF # payload)"
  have "skipHeaders ?s [] = ?s\<lparr>buf := payload\<rparr>"
    using assms by (intro skipHeaders_envelope) (simp_all add: good_def stringstream_def)
  then have "skipHeaders ?s [] = stringstream payload"
    by (simp add: stringstream_def)
  then show ?thesis
    by (simp add: processFile_def lineLoop_stringstream)
qed

lemmas char_class = isspace_def ispunct_def isupper_def tolower_def char_of_eq_iff

lemmas evaluate = tokenize_def split_whitespace_def char_class checkWord_iff to_string_def
  digits.simps CR_def LF_def

lemmas evaluate_lines = no_boundary_def lines_def CR_def LF_def

lemma processFile_one_two:
  "processFile [(''one'', True)]
     (stringstream (''HTTP/1.1 200 OK'' @ [CR, LF, CR, LF] @ ''one two'')) file =
   file @ '': words=2, English words=1''"
  using processFile_envelope [of "[''HTTP/1.1 200 OK'' @ [CR]]" "[CR]" "[(''one'', True)]" "''one two''" "file"]
  by (simp add: evaluate)

section \<open>The claims\<close>

subsection \<open>Ordering of the results\<close>

text \<open>
  C1: for every sequence of arguments and every order in which the threads complete,
  after the joins slot \<open>i\<close> of \<^verbatim>\<open>stats\<close> holds the result of \<^verbatim>\<open>getStats\<close> for the
  argument at position \<open>i\<close>, every slot from 1 on is populated, and the output lists
  the results in the order of the arguments: the order of completion has no influence.
\<close>

theorem results_in_input_order:
  assumes "distinct order" and "set order = set [1..<length argv]"
  shows "length (joined net d order argv) = length argv \<and>
    (\<forall>i. 1 \<le> i \<and> i < length argv \<longrightarrow>
       joined net d order argv ! i = getStats net d (argv ! i)) \<and>
    fst (main net d order argv) =
      concat (map (\<lambda>file. getStats net d file @ [LF]) (tl argv))"
proof (intro conjI allI impI)
  show "length (joined net d order argv) = length argv"
    by (simp add: joined_def length_fold_thread)
  show "joined net d order argv ! i = getStats net d (argv ! i)"
    if "1 \<le> i \<and> i < length argv" for i
    using that assms(2) by (intro joined_nth) simp_all
  show "fst (main net d order argv) =
      concat (map (\<lambda>file. getStats net d file @ [LF]) (tl argv))"
    using assms(2) by (rule main_output)
qed

text \<open>Two files, the thread of the second completing first.\<close>

theorem results_in_input_order_witness:
  "fst (main flaky [(''one'', True)] [2, 1] [''prog'', ''a'', ''b'']) =
     ''a: words=0, English words=0'' @ [LF] @ ''b: words=2, English words=1'' @ [LF]"
proof -
  have d: "distinct [2, 1 :: nat]" by simp
  have s: "set [2, 1] = set [1..<length [''prog'', ''a'', ''b'']]"
    by (auto simp: numeral_2_eq_2)
  have a: "getStats flaky [(''one'', True)] ''a'' = ''a: words=0, English words=0''"
    by (simp add: getStats_answer answer_def flaky_def tcp_iostream_def processFile_failed)
  have b: "getStats flaky [(''one'', True)] ''b'' = ''b: words=2, English words=1''"
    using processFile_one_two [of "''b''"]
    by (simp add: getStats_answer answer_def flaky_def tcp_iostream_Some)
  from results_in_input_order [OF d s, of flaky "[(''one'', True)]"] a b
  show ?thesis by simp
qed

subsection \<open>A response without a boundary\<close>

text \<open>
  C2, as the code has it: for every input stream in which no line before the end of the
  stream is empty or only a carriage return, the header loop terminates having consumed
  the whole stream; the payload is empty, no word is checked, and the task reports
  total 0 and recognized 0. (The claim as written, that the stream is then tokenized
  and counted as payload, fails: see the counterexample.)
\<close>

theorem no_boundary_gives_empty_payload:
  assumes "no_boundary bytes"
  shows "buf (skipHeaders (tcp_iostream (Some bytes)) []) = [] \<and>
    payloadWords (skipHeaders (tcp_iostream (Some bytes)) []) = [] \<and>
    processFile d (tcp_iostream (Some bytes)) file = file @ '': words=0, English words=0''"
proof -
  have g: "good (stringstream bytes)" by (simp add: good_def stringstream_def)
  from assms have "good (stringstream bytes) \<longrightarrow> no_boundary (buf (stringstream bytes))"
    by (simp add: stringstream_def)
  from skipHeaders_no_boundary [OF this, of "[]"] g
  have f: "failbit (skipHeaders (stringstream bytes) [])"
    and e: "buf (skipHeaders (stringstream bytes) []) = []" by simp_all
  from e show ?thesis
    by (simp add: tcp_iostream_Some payloadWords_def processFile_def to_string_0
        lineLoop_failed [OF f])
qed

theorem no_boundary_gives_empty_payload_witness:
  "processFile [(''one'', True)]
     (tcp_iostream (Some (''HTTP/1.1 200 OK'' @ [CR, LF] @ ''one two''))) ''f'' =
   ''f: words=0, English words=0''"
proof -
  have "no_boundary (''HTTP/1.1 200 OK'' @ [CR, LF] @ ''one two'')"
    by (simp add: evaluate_lines)
  from no_boundary_gives_empty_payload [OF this, of "[(''one'', True)]" "''f''"]
  show ?thesis by simp
qed

text \<open>
  The stream "hello world" has no boundary and two tokens; the loops check no word and
  the count is 0, not 2.
\<close>

theorem no_boundary_counterexample:
  "no_boundary ''hello world'' \<and>
   tokenize ''hello world'' = [''hello'', ''world''] \<and>
   payloadWords (skipHeaders (tcp_iostream (Some ''hello world'')) []) = [] \<and>
   processFile [] (tcp_iostream (Some ''hello world'')) ''f'' = ''f: words=0, English words=0''"
proof -
  have n: "no_boundary ''hello world''" by (simp add: evaluate_lines)
  from n have "good (stringstream ''hello world'') \<longrightarrow>
      no_boundary (buf (stringstream ''hello world''))"
    by (simp add: stringstream_def)
  from skipHeaders_no_boundary [OF this, of "[]"]
  have f: "failbit (skipHeaders (stringstream ''hello world'') [])" by simp
  have t: "tokenize ''hello world'' = [''hello'', ''world'']" by (simp add: evaluate)
  from n t show ?thesis
    by (simp add: tcp_iostream_Some payloadWords_def processFile_def to_string_0
        lineLoop_failed [OF f])
qed

subsection \<open>A fetch that fails\<close>

text \<open>
  C3, as the code has it: for every task whose connection cannot be made, the task's
  result is the statistics line with total 0 and recognized 0, the same line as for an
  empty payload, and carries no failure description; every task of the batch, whatever
  happens to the others, yields what \<^verbatim>\<open>processFile\<close> computes from the answer to its own
  request. (The claim as written, that the result carries a failure description
  instead of word counts, fails: see the counterexample.)
\<close>

theorem failed_fetch_reports_zero_counts:
  assumes "distinct order" and "set order = set [1..<length argv]"
    and "1 \<le> i" and "i < length argv" and "answer net (argv ! i) = None"
  shows "joined net d order argv ! i = argv ! i @ '': words=0, English words=0'' \<and>
    (\<forall>j. 1 \<le> j \<and> j < length argv \<longrightarrow>
       joined net d order argv ! j =
         processFile d (tcp_iostream (answer net (argv ! j))) (argv ! j))"
proof (intro conjI allI impI)
  have "joined net d order argv ! i = getStats net d (argv ! i)"
    using assms by (intro joined_nth) simp_all
  also have "\<dots> = argv ! i @ '': words=0, English words=0''"
    using assms(5) by (simp add: getStats_answer processFile_failed tcp_iostream_def)
  finally show "joined net d order argv ! i = argv ! i @ '': words=0, English words=0''" .
  show "joined net d order argv ! j = processFile d (tcp_iostream (answer net (argv ! j))) (argv ! j)"
    if "1 \<le> j \<and> j < length argv" for j
    using that assms(2) by (simp add: joined_nth getStats_answer)
qed

theorem failed_fetch_reports_zero_counts_witness:
  "joined flaky [(''one'', True)] [2, 1] [''prog'', ''a'', ''b''] ! 1 =
     ''a: words=0, English words=0'' \<and>
   joined flaky [(''one'', True)] [2, 1] [''prog'', ''a'', ''b''] ! 2 =
     ''b: words=2, English words=1''"
proof -
  have d: "distinct [2, 1 :: nat]" by simp
  have s: "set [2, 1] = set [1..<length [''prog'', ''a'', ''b'']]"
    by (auto simp: numeral_2_eq_2)
  have a: "answer flaky ([''prog'', ''a'', ''b''] ! 1) = None"
    by (simp add: answer_def flaky_def)
  have b: "processFile [(''one'', True)] (tcp_iostream (answer flaky ''b'')) ''b'' =
      ''b: words=2, English words=1''"
    using processFile_one_two [of "''b''"]
    by (simp add: answer_def flaky_def tcp_iostream_Some)
  from failed_fetch_reports_zero_counts [OF d s _ _ a, of "[(''one'', True)]"] b
  show ?thesis by simp
qed

text \<open>
  The result of a task whose host cannot be reached is a line of word counts, the very
  line of a task that fetched a response with an empty body.
\<close>

theorem failed_fetch_counterexample:
  "answer unreachable ''a'' = None \<and>
   getStats unreachable [] ''a'' = ''a: words=0, English words=0'' \<and>
   getStats empty_page [] ''a'' = ''a: words=0, English words=0''"
proof -
  have "processFile [] (stringstream (''HTTP/1.1 200 OK'' @ [CR, LF, CR, LF])) ''a'' =
      ''a: words=0, English words=0''"
    using processFile_envelope [of "[''HTTP/1.1 200 OK'' @ [CR]]" "[CR]" "[]" "[]" "''a''"]
    by (simp add: evaluate)
  then show ?thesis
    by (simp add: getStats_answer answer_def unreachable_def empty_page_def tcp_iostream_Some)
      (simp add: tcp_iostream_def processFile_failed)
qed

subsection \<open>The dictionary lookup\<close>

text \<open>
  C4: for every word, the linear scan of \<^verbatim>\<open>checkWord\<close> over the dictionary that
  \<^verbatim>\<open>loadDictionary\<close> built returns the same boolean as membership of the word in the set
  of whitespace-delimited tokens of the reference file. (By \<open>checkWord_iff\<close> the scan
  depends only on the set of entries, not on the order in which the map is visited.)
\<close>

theorem checkWord_is_membership:
  "checkWord (loadDictionary f) word = contains (referenceSet f) word"
  by (auto simp: checkWord_iff set_loadDictionary contains_def)

subsection \<open>Tokenization\<close>

text \<open>
  C5: the words that the loops of \<^verbatim>\<open>processFile\<close> hand to \<^verbatim>\<open>checkWord\<close> for a line are,
  in order, the tokens of the specification's tokenizer: punctuation replaced by spaces,
  letters lowercased, split on runs of whitespace without empty fragments. The line
  "The Quick Brown Fox jumps." gives the, quick, brown, fox, jumps, and the empty line
  gives no token.
\<close>

theorem tokenization_as_specified:
  "payloadWords (stringstream line) = tokenize line \<and>
   payloadWords (stringstream ''The Quick Brown Fox jumps.'') =
     [''the'', ''quick'', ''brown'', ''fox'', ''jumps''] \<and>
   payloadWords (stringstream []) = []"
proof (intro conjI)
  show "payloadWords (stringstream line) = tokenize line"
    by (rule payloadWords_stringstream)
  show "payloadWords (stringstream ''The Quick Brown Fox jumps.'') =
     [''the'', ''quick'', ''brown'', ''fox'', ''jumps'']"
    by (simp add: payloadWords_stringstream evaluate)
  show "payloadWords (stringstream []) = []"
    by (simp add: payloadWords_stringstream tokenize_def split_whitespace_Nil)
qed

subsection \<open>The counters\<close>

text \<open>
  C6, as the code has it: for every sequence of tokens \<open>T\<close> with fewer than \<open>2 ^ 31\<close>
  tokens and at every point \<open>k\<close> of it, after the accumulation step has processed the
  first \<open>k\<close> tokens in order the total count is \<open>k\<close> and the recognized count is at
  least 0 and at most the total; at the end the total is the length of \<open>T\<close>. (The
  counters are \<^verbatim>\<open>int\<close>: the claim as written, for every sequence, fails at \<open>2 ^ 31\<close>
  tokens, see the counterexample.)
\<close>

theorem accumulate_counts:
  assumes "length T < 2 ^ 31" and "k \<le> length T"
  shows "sint (fst (fold (accumulate d) (take k T) (0, 0))) = int k \<and>
    0 \<le> sint (snd (fold (accumulate d) (take k T) (0, 0))) \<and>
    sint (snd (fold (accumulate d) (take k T) (0, 0))) \<le>
      sint (fst (fold (accumulate d) (take k T) (0, 0)))"
proof -
  define e where "e = length (filter (checkWord d) (take k T))"
  have "e \<le> length (take k T)" unfolding e_def by (rule length_filter_le)
  with assms have k: "k < 2 ^ 31" and e: "e < 2 ^ 31" "e \<le> k" by simp_all
  have "fold (accumulate d) (take k T) (0, 0) = (of_nat k, of_nat e)"
    using assms(2) by (simp add: fold_accumulate e_def min_absorb2)
  with k e show ?thesis by (simp add: sint_of_nat_small)
qed

theorem accumulate_counts_witness:
  "sint (fst (fold (accumulate [(''a'', True)]) (take 2 [''a'', ''b'', ''a'']) (0, 0))) = 2 \<and>
   sint (snd (fold (accumulate [(''a'', True)]) (take 2 [''a'', ''b'', ''a'']) (0, 0))) \<le>
     sint (fst (fold (accumulate [(''a'', True)]) (take 2 [''a'', ''b'', ''a'']) (0, 0)))"
  using accumulate_counts [of "[''a'', ''b'', ''a'']" 2 "[(''a'', True)]"] by simp

text \<open>After \<open>2 ^ 31\<close> tokens the total count is not the number of tokens.\<close>

theorem accumulate_counts_counterexample:
  "sint (fst (fold (accumulate []) (replicate (2 ^ 31) ''a'') (0, 0))) \<noteq>
     int (length (replicate (2 ^ 31) ''a''))"
  by (simp only: fold_accumulate fst_conv length_replicate add_0 sint_of_nat_2_31) simp

subsection \<open>An empty payload\<close>

text \<open>
  C7: for every response that ends with its boundary (header lines, none of them empty
  or only a carriage return, then an empty line or a line that is only a carriage
  return, and nothing after it), the task completes with the statistics line of total 0
  and recognized 0.
\<close>

theorem empty_payload_counts_zero:
  assumes "\<forall>h\<in>set hdrs. h \<noteq> [] \<and> h \<noteq> [CR] \<and> LF \<notin> set h" and "b = [] \<or> b = [CR]"
  shows "processFile d (tcp_iostream (Some (concat (map (\<lambda>h. h @ [LF]) hdrs) @ b @ [LF]))) file =
    file @ '': words=0, English words=0''"
  using processFile_envelope [OF assms, of d "[]" "file"]
  by (simp add: tcp_iostream_Some tokenize_def split_whitespace_Nil to_string_0)

theorem empty_payload_counts_zero_witness:
  "processFile [(''ok'', True)]
     (tcp_iostream (Some (''HTTP/1.1 200 OK'' @ [CR, LF] @ ''Content-Length: 0'' @ [CR, LF, CR, LF])))
     ''f'' =
   ''f: words=0, English words=0''"
  using empty_payload_counts_zero [of "[''HTTP/1.1 200 OK'' @ [CR], ''Content-Length: 0'' @ [CR]]"
      "[CR]" "[(''ok'', True)]" "''f''"]
  by (simp add: CR_def LF_def)

subsection \<open>The exit code\<close>

text \<open>
  C8, as the code has it: for every batch the exit code is 0, success, also when every
  task of the batch failed. (The claim as written, a failure code exactly when every
  task failed, fails: see the counterexample.)
\<close>

theorem exit_code_always_zero: "snd (main net d order argv) = 0"
  by (simp add: main_def Let_def)

text \<open>A batch of one task whose host cannot be reached: the exit code is 0.\<close>

theorem exit_code_counterexample:
  "answer unreachable ''a'' = None \<and>
   joined unreachable [] [1] [''prog'', ''a''] = [[], ''a: words=0, English words=0''] \<and>
   snd (main unreachable [] [1] [''prog'', ''a'']) = 0"
  by (simp add: answer_def unreachable_def main_def joined_def thread_def getStats_answer
      tcp_iostream_def processFile_failed)

subsection \<open>Uppercase entries of the reference list\<close>

text \<open>
  C9: the keys of the dictionary that \<^verbatim>\<open>loadDictionary\<close> builds are exactly the
  whitespace-delimited tokens of the file, unchanged; no word that the loops hand to
  \<^verbatim>\<open>checkWord\<close> contains an uppercase letter; so an entry \<open>e\<close> with an uppercase letter
  is never among the checked words, and removing it from the dictionary changes the
  result of \<^verbatim>\<open>processFile\<close> for no stream.
\<close>

theorem uppercase_entries_never_match:
  assumes "c \<in> set e" and "isupper c"
  shows "set (map fst (loadDictionary f)) = referenceSet f \<and>
    (\<forall>w\<in>set (payloadWords s). \<forall>c\<in>set w. \<not> isupper c) \<and>
    e \<notin> set (payloadWords s) \<and>
    processFile (filter (\<lambda>a. fst a \<noteq> e) d) s file = processFile d s file"
proof (intro conjI)
  show "set (map fst (loadDictionary f)) = referenceSet f"
    by (simp add: set_loadDictionary image_image)
  show l: "\<forall>w\<in>set (payloadWords s). \<forall>c\<in>set w. \<not> isupper c"
    using words_lower by (simp add: payloadWords_def lineLoop_fold fold_record_word)
  from l assms show "e \<notin> set (payloadWords s)" by blast
  define ws where "ws = concat (map (\<lambda>chunk. split_whitespace (normalize chunk))
    (pending (skipHeaders s [])))"
  have "\<forall>w\<in>set ws. w \<noteq> e"
    using words_lower [of _ "pending (skipHeaders s [])"] assms unfolding ws_def by blast
  then have "\<forall>w\<in>set ws. checkWord (filter (\<lambda>a. fst a \<noteq> e) d) w = checkWord d w"
    by (simp add: checkWord_remove)
  then have "fold (accumulate (filter (\<lambda>a. fst a \<noteq> e) d)) ws (0, 0) =
      fold (accumulate d) ws (0, 0)"
    by (rule fold_accumulate_cong)
  then show "processFile (filter (\<lambda>a. fst a \<noteq> e) d) s file = processFile d s file"
    by (simp add: processFile_def lineLoop_fold ws_def)
qed

theorem uppercase_entries_never_match_witness:
  "loadDictionary (Some ''Apple pie'') = [(''Apple'', True), (''pie'', True)] \<and>
   payloadWords (stringstream ''Apple apple'') = [''apple'', ''apple''] \<and>
   ''Apple'' \<notin> set (payloadWords (stringstream ''Apple apple''))"
proof -
  have 1: "loadDictionary (Some ''Apple pie'') = [(''Apple'', True), (''pie'', True)]"
    by (simp add: loadDictionary_def loadDictionary_loop_fold pending_def good_def ifstream_def
        split_whitespace_def isspace_def)
  have 2: "payloadWords (stringstream ''Apple apple'') = [''apple'', ''apple'']"
    by (simp add: payloadWords_stringstream evaluate)
  have "CHR ''A'' \<in> set ''Apple''" and "isupper CHR ''A''"
    by (simp_all add: isupper_def)
  from uppercase_entries_never_match [OF this, of "Some ''Apple pie''"
      "stringstream ''Apple apple''"] 1 2
  show ?thesis by simp
qed

subsection \<open>What the total counts\<close>

text \<open>
  C10, as the code has it: for every payload with fewer than \<open>2 ^ 31\<close> maximal runs of
  characters that are neither whitespace nor punctuation, the total word count that the
  payload loop computes is the number of these runs; the chunk "don't" gives the two
  words don and t. (The counter is an \<^verbatim>\<open>int\<close>: the claim as written, for every
  payload, fails at \<open>2 ^ 31\<close> runs, see the counterexample.)
\<close>

theorem wordCount_counts_runs:
  assumes "count_runs wordchar payload < 2 ^ 31"
  shows "sint (fst (lineLoop (accumulate d) (stringstream payload) ln word (0, 0))) =
      int (count_runs wordchar payload) \<and>
    payloadWords (stringstream ''don't'') = [''don'', ''t''] \<and>
    count_runs wordchar ''don't'' = 2"
proof (intro conjI)
  show "sint (fst (lineLoop (accumulate d) (stringstream payload) ln word (0, 0))) =
      int (count_runs wordchar payload)"
    using assms by (simp add: lineLoop_stringstream length_tokenize sint_of_nat_small)
  show "payloadWords (stringstream ''don't'') = [''don'', ''t'']"
    by (simp add: payloadWords_stringstream evaluate)
  show "count_runs wordchar ''don't'' = 2"
    by (simp add: wordchar_def isspace_def ispunct_def)
qed

theorem wordCount_counts_runs_witness:
  "sint (fst (lineLoop (accumulate []) (stringstream ''I don't know.'') [] [] (0, 0))) = 4"
proof -
  have c: "count_runs wordchar ''I don't know.'' = 4"
    by (simp add: wordchar_def isspace_def ispunct_def)
  then have "count_runs wordchar ''I don't know.'' < 2 ^ 31" by simp
  from wordCount_counts_runs [OF this, of "[]" "[]" "[]"] c show ?thesis by simp
qed

text \<open>A payload of \<open>2 ^ 31\<close> words: the total count is not the number of runs.\<close>

theorem wordCount_counterexample:
  "sint (fst (lineLoop (accumulate []) (stringstream (concat (replicate (2 ^ 31) ''a '')))
      [] [] (0, 0))) \<noteq>
     int (count_runs wordchar (concat (replicate (2 ^ 31) ''a '')))"
  by (simp only: lineLoop_stringstream fst_conv length_tokenize count_runs_replicate add_0
      sint_of_nat_2_31) simp

end
